theory Spec2Isabelle
  imports Main "HOL-Library.Sublist"
begin

section \<open>LeadStorm: the four pipeline stages of leadstorm.py\<close>

text \<open>
  The program is a sequential pipeline over a list of leads: \<open>scrape_public_fb_leads\<close>
  (Collector), \<open>qualify_leads\<close> (Qualifier), \<open>enrich_leads\<close> (Enricher) and
  \<open>upload_to_sheets\<close> (Publisher). A lead is a Python dict that the Qualifier and the
  Enricher mutate in place. The external services (the post feed, the chat completion, the
  email lookup, the spreadsheet backend) are parameters of the model: every behaviour they
  can show is one value of the parameter. So are the character tables behind the string
  built-ins of the interpreter and the value conversion of pandas. Logging, the progress
  bar and the one-second sleeps have no influence on the values computed and are left out.
\<close>

subsection \<open>Python values, dicts and exceptions\<close>

text \<open>
  A Python \<open>str\<close> is a sequence of Unicode code points. \<open>lit\<close> gives the \<open>str\<close> of a
  literal of the source, all of which are ASCII.
\<close>

type_synonym ustr = "nat list"

definition lit :: "string \<Rightarrow> ustr" where
  "lit s = map of_char s"

text \<open>
  The values a post, a lead or a decoded JSON response carries. Floats and lists are left
  out of the universe. A dict is an association list in insertion order, as Python keeps it.
\<close>

datatype pyval =
    PNone
  | PBool bool
  | PInt int
  | PStr ustr
  | PDict "(ustr \<times> pyval) list"

type_synonym dict = "(ustr \<times> pyval) list"

datatype exn = KeyError | TypeError | AttributeError | ValueError | External string

text \<open>\<open>d.get(k)\<close> with no default: the first binding of the key.\<close>

definition dict_get :: "dict \<Rightarrow> ustr \<Rightarrow> pyval option" where
  "dict_get d k = map_of d k"

text \<open>\<open>d[k] = v\<close>: an existing key keeps its position, a new key goes last.\<close>

primrec dict_set :: "dict \<Rightarrow> ustr \<Rightarrow> pyval \<Rightarrow> dict" where
  "dict_set [] k v = [(k, v)]"
| "dict_set (p # ps) k v = (if fst p = k then (k, v) # ps else p # dict_set ps k v)"

text \<open>\<open>d[k]\<close>: KeyError on a missing key.\<close>

definition dict_index :: "dict \<Rightarrow> ustr \<Rightarrow> exn + pyval" where
  "dict_index d k = (case dict_get d k of None \<Rightarrow> Inl KeyError | Some v \<Rightarrow> Inr v)"

text \<open>\<open>x.get(k, default)\<close> on any value: only a dict has the method.\<close>

definition py_get :: "pyval \<Rightarrow> ustr \<Rightarrow> pyval \<Rightarrow> exn + pyval" where
  "py_get x k dflt =
     (case x of
        PDict d \<Rightarrow> (case dict_get d k of None \<Rightarrow> Inr dflt | Some v \<Rightarrow> Inr v)
      | _ \<Rightarrow> Inl AttributeError)"

text \<open>Truth value of a Python value, as \<open>and\<close>, \<open>or\<close> and \<open>if\<close> read it.\<close>

fun truthy :: "pyval \<Rightarrow> bool" where
  "truthy PNone = False"
| "truthy (PBool b) = b"
| "truthy (PInt n) = (n \<noteq> 0)"
| "truthy (PStr s) = (s \<noteq> [])"
| "truthy (PDict d) = (d \<noteq> [])"

subsection \<open>String built-ins\<close>

text \<open>
  The string built-ins rest on the Unicode character tables of the interpreter, which are
  no part of the program. They are a parameter: for a code point, whether it is white
  space (\<open>str.isspace\<close>), whether it is a digit (\<open>str.isdigit\<close>), and its decimal
  value if it has one (a superscript two is a digit without one); for a string, its
  lower-case form (\<open>str.lower\<close>, which may change the length); and the limit on the
  number of digits that \<open>int\<close> converts, 0 for no limit
  (\<open>sys.get_int_max_str_digits()\<close>).
\<close>

record builtins =
  ch_isspace :: "nat \<Rightarrow> bool"
  ch_isdigit :: "nat \<Rightarrow> bool"
  ch_decimal :: "nat \<Rightarrow> nat option"
  str_lower :: "ustr \<Rightarrow> ustr"
  int_max_str_digits :: nat

text \<open>\<open>s.strip()\<close>: white space is removed at both ends.\<close>

definition strip :: "builtins \<Rightarrow> ustr \<Rightarrow> ustr" where
  "strip U s = rev (dropWhile (ch_isspace U) (rev (dropWhile (ch_isspace U) s)))"

text \<open>\<open>s.isdigit()\<close>: at least one character, and every character is a digit.\<close>

definition isdigit :: "builtins \<Rightarrow> ustr \<Rightarrow> bool" where
  "isdigit U s = (s \<noteq> [] \<and> list_all (ch_isdigit U) s)"

text \<open>
  \<open>int(s)\<close> on a string that \<open>isdigit\<close> accepts: ValueError when the string is longer
  than the limit or has a digit without decimal value, else the number that the decimal
  values give in base 10.
\<close>

definition int_of_str :: "builtins \<Rightarrow> ustr \<Rightarrow> exn + int" where
  "int_of_str U s =
     (if 0 < int_max_str_digits U \<and> int_max_str_digits U < length s then Inl ValueError
      else case those (map (ch_decimal U) s) of
             None \<Rightarrow> Inl ValueError
           | Some ds \<Rightarrow> Inr (int (foldl (\<lambda>acc d. 10 * acc + d) 0 ds)))"

text \<open>
  What every CPython has in these tables on the ASCII code points: the white space is
  9 to 13 and 28 to 32, the digits are 48 to 57, and the decimal value of the digit
  \<open>c\<close> is \<open>c - 48\<close>.
\<close>

definition ascii_tables :: "builtins \<Rightarrow> bool" where
  "ascii_tables U =
     ((\<forall>c<128. ch_isspace U c = (9 \<le> c \<and> c \<le> 13 \<or> 28 \<le> c \<and> c \<le> 32)) \<and>
      (\<forall>c<128. ch_isdigit U c = (48 \<le> c \<and> c \<le> 57)) \<and>
      (\<forall>c. 48 \<le> c \<and> c \<le> 57 \<longrightarrow> ch_decimal U c = Some (c - 48)))"

subsection \<open>Qualifier: parsing the scoring reply\<close>

text \<open>
  Lines 78 and 80: \<open>raw_score = content.strip()\<close>, then
  \<open>score = int(raw_score) if raw_score.isdigit() else 0\<close>, where \<open>int\<close> may raise.
\<close>

definition parse_score :: "builtins \<Rightarrow> ustr \<Rightarrow> exn + int" where
  "parse_score U content =
     (let raw_score = strip U content
      in if isdigit U raw_score then int_of_str U raw_score else Inr 0)"

text \<open>Lines 81 to 83: the handler of the inner try gives score 0.\<close>

definition reply_score :: "builtins \<Rightarrow> ustr \<Rightarrow> int" where
  "reply_score U content =
     (case parse_score U content of Inl e \<Rightarrow> 0 | Inr score \<Rightarrow> score)"

subsection \<open>Collector: \<open>scrape_public_fb_leads\<close>\<close>

text \<open>
  \<open>fb.get_posts\<close> returns a generator: it yields posts until it stops or raises. A
  failure of the call itself is the generator that raises at once.
\<close>

datatype 'a gen = Stop | Fail exn | Yield 'a "'a gen"

definition LEADS_PER_RUN :: nat where
  "LEADS_PER_RUN = 10"

text \<open>\<open>x or y\<close>.\<close>

definition py_or :: "pyval \<Rightarrow> pyval \<Rightarrow> pyval" where
  "py_or x y = (if truthy x then x else y)"

text \<open>\<open>d.get(k, default)\<close> on a dict.\<close>

definition dict_get_default :: "dict \<Rightarrow> ustr \<Rightarrow> pyval \<Rightarrow> pyval" where
  "dict_get_default d k dflt = (case dict_get d k of None \<Rightarrow> dflt | Some v \<Rightarrow> v)"

text \<open>
  Lines 44 to 51, the body of the loop up to the test of the cap: \<open>post['text']\<close> raises on
  a missing key, \<open>.lower()\<close> raises on a truthy text that is not a string, and
  \<open>post['username']\<close> raises on a missing key. \<open>a in b\<close> on strings holds when \<open>a\<close>
  is a contiguous part of \<open>b\<close>.
\<close>

definition post_step :: "builtins \<Rightarrow> ustr \<Rightarrow> dict \<Rightarrow> dict list \<Rightarrow> exn + dict list" where
  "post_step U target_audience post leads =
     (case dict_index post (lit ''text'') of
        Inl e \<Rightarrow> Inl e
      | Inr text \<Rightarrow>
          if truthy text then
            (case text of
               PStr txt \<Rightarrow>
                 if sublist (str_lower U target_audience) (str_lower U txt) then
                   (case dict_index post (lit ''username'') of
                      Inl e \<Rightarrow> Inl e
                    | Inr username \<Rightarrow>
                        Inr (leads @
                          [[(lit ''username'', py_or username (PStr (lit ''unknown''))),
                            (lit ''name'',
                               dict_get_default post (lit ''name'') (PStr (lit ''Unknown User''))),
                            (lit ''post'', text),
                            (lit ''source'', PStr (lit ''Facebook''))]]))
                 else Inr leads
             | _ \<Rightarrow> Inl AttributeError)
          else Inr leads)"

text \<open>Lines 43 to 53: the loop over the generator, with the break at twice the cap.\<close>

fun scrape_loop :: "builtins \<Rightarrow> ustr \<Rightarrow> dict gen \<Rightarrow> dict list \<Rightarrow> exn + dict list" where
  "scrape_loop U target_audience Stop leads = Inr leads"
| "scrape_loop U target_audience (Fail e) leads = Inl e"
| "scrape_loop U target_audience (Yield post posts) leads =
     (case post_step U target_audience post leads of
        Inl e \<Rightarrow> Inl e
      | Inr leads' \<Rightarrow>
          if length leads' \<ge> LEADS_PER_RUN * 2 then Inr leads'
          else scrape_loop U target_audience posts leads')"

text \<open>Lines 37 to 60: any exception of the body gives the empty list.\<close>

definition scrape_public_fb_leads :: "builtins \<Rightarrow> ustr \<Rightarrow> dict gen \<Rightarrow> dict list" where
  "scrape_public_fb_leads U target_audience posts =
     (case scrape_loop U target_audience posts [] of Inl e \<Rightarrow> [] | Inr leads \<Rightarrow> leads)"

text \<open>The generator that yields the posts of a list and then goes on as \<open>g\<close>.\<close>

definition gen_of :: "'a list \<Rightarrow> 'a gen \<Rightarrow> 'a gen" where
  "gen_of ps g = foldr Yield ps g"

subsection \<open>The store of leads\<close>

text \<open>
  The Qualifier and the Enricher receive a list of references to dicts and assign to keys
  of these dicts in place; the same dict may occur twice in a list. The store maps a
  reference to the dict it holds, and a lead list is a list of references.
\<close>

type_synonym addr = nat
type_synonym store = "addr \<Rightarrow> dict"

subsection \<open>Qualifier: \<open>qualify_leads\<close>\<close>

text \<open>
  The chat completion service: the outcome of the \<open>i\<close>-th call of a run on a prompt is
  the text of the first choice, or an exception (also when the reply carries no text).
\<close>

type_synonym chat = "nat \<Rightarrow> ustr \<Rightarrow> exn + ustr"

definition prompt_of :: "ustr \<Rightarrow> ustr" where
  "prompt_of txt =
     lit ''Score this lead (0-10) for fit as a potential customer based on: Post: '' @ txt"

text \<open>Lines 72 to 83: the inner try; every exception of the call gives score 0.\<close>

definition lead_score :: "builtins \<Rightarrow> chat \<Rightarrow> nat \<Rightarrow> ustr \<Rightarrow> int" where
  "lead_score U client i txt =
     (case client i (prompt_of txt) of Inl e \<Rightarrow> 0 | Inr content \<Rightarrow> reply_score U content)"

text \<open>
  Lines 70 to 92. \<open>lead['post']\<close> in line 71 is outside the inner try and raises on a
  missing key. A post that is not a string cannot be sliced: \<open>lead['post'][:50]\<close> raises
  in line 79, and again in the handler in line 82, so the exception leaves the loop. The
  store keeps the assignments made before an exception.
\<close>

fun qualify_loop ::
  "builtins \<Rightarrow> chat \<Rightarrow> nat \<Rightarrow> store \<Rightarrow> addr list \<Rightarrow> addr list \<Rightarrow> store \<times> (exn + addr list)"
  where
  "qualify_loop U client i h [] qualified = (h, Inr qualified)"
| "qualify_loop U client i h (lead # leads) qualified =
     (case dict_index (h lead) (lit ''post'') of
        Inl e \<Rightarrow> (h, Inl e)
      | Inr (PStr txt) \<Rightarrow>
          (let score = lead_score U client i txt;
               h' = (if score \<ge> 5
                     then h(lead := dict_set (h lead) (lit ''score'') (PInt score)) else h);
               qualified' = (if score \<ge> 5 then qualified @ [lead] else qualified)
           in if length qualified' \<ge> LEADS_PER_RUN then (h', Inr qualified')
              else qualify_loop U client (Suc i) h' leads qualified')
      | Inr _ \<Rightarrow> (h, Inl TypeError))"

text \<open>
  Lines 64 to 99: the construction of the client may raise; every exception of the body
  gives the empty list.
\<close>

definition qualify_leads ::
  "builtins \<Rightarrow> exn + chat \<Rightarrow> store \<Rightarrow> addr list \<Rightarrow> store \<times> addr list" where
  "qualify_leads U openai h leads =
     (case openai of
        Inl e \<Rightarrow> (h, [])
      | Inr client \<Rightarrow>
          (case qualify_loop U client 0 h leads [] of
             (h', Inl e) \<Rightarrow> (h', [])
           | (h', Inr qualified) \<Rightarrow> (h', qualified)))"

subsection \<open>Qualifier: the leads that qualify\<close>

text \<open>
  For the comparison with the loop: the score of a lead whose call is the \<open>i\<close>-th of
  the run, and the leads of a list that score at least 5, in their order, when the first
  lead of the list gets the \<open>i\<close>-th call.
\<close>

definition post_score :: "builtins \<Rightarrow> chat \<Rightarrow> store \<Rightarrow> nat \<Rightarrow> addr \<Rightarrow> int" where
  "post_score U client h i lead =
     (case dict_get (h lead) (lit ''post'') of
        Some (PStr txt) \<Rightarrow> lead_score U client i txt
      | _ \<Rightarrow> 0)"

fun qualifying :: "builtins \<Rightarrow> chat \<Rightarrow> store \<Rightarrow> nat \<Rightarrow> addr list \<Rightarrow> addr list" where
  "qualifying U client h i [] = []"
| "qualifying U client h i (lead # leads) =
     (if 5 \<le> post_score U client h i lead
      then lead # qualifying U client h (Suc i) leads
      else qualifying U client h (Suc i) leads)"

subsection \<open>Enricher: \<open>enrich_leads\<close>\<close>

text \<open>
  The lookup service: the outcome of the \<open>i\<close>-th request of a run for a name is the
  decoded JSON body, or an exception (connection, timeout, body that is not JSON).
\<close>

type_synonym lookup = "nat \<Rightarrow> pyval \<Rightarrow> exn + pyval"

definition why_fit_of :: "ustr \<Rightarrow> pyval" where
  "why_fit_of txt = PStr (lit ''Post: '' @ take 50 txt @ lit ''...'')"

text \<open>
  Lines 108 to 111, the body of the loop. Nothing in it is caught per lead: a missing
  name, a request that raises, a response or a \<open>data\<close> value without \<open>get\<close>, and
  a post that is missing or cannot be sliced all raise. The result is the store and the
  exception raised, if any.
\<close>

definition enrich_step :: "lookup \<Rightarrow> nat \<Rightarrow> store \<Rightarrow> addr \<Rightarrow> store \<times> exn option" where
  "enrich_step hunter i h lead =
     (case dict_index (h lead) (lit ''name'') of
        Inl e \<Rightarrow> (h, Some e)
      | Inr name \<Rightarrow>
          (case hunter i name of
             Inl e \<Rightarrow> (h, Some e)
           | Inr response \<Rightarrow>
               (case py_get response (lit ''data'') (PDict []) of
                  Inl e \<Rightarrow> (h, Some e)
                | Inr data \<Rightarrow>
                    (case py_get data (lit ''email'') (PStr (lit ''N/A'')) of
                       Inl e \<Rightarrow> (h, Some e)
                     | Inr email \<Rightarrow>
                         (let h1 = h(lead := dict_set (h lead) (lit ''email'') email)
                          in case dict_index (h1 lead) (lit ''post'') of
                               Inl e \<Rightarrow> (h1, Some e)
                             | Inr (PStr txt) \<Rightarrow>
                                 (h1(lead := dict_set (h1 lead) (lit ''why_fit'') (why_fit_of txt)),
                                  None)
                             | Inr _ \<Rightarrow> (h1, Some TypeError))))))"

text \<open>Lines 107 to 115: the loop; an exception of the body leaves it.\<close>

fun enrich_loop :: "lookup \<Rightarrow> nat \<Rightarrow> store \<Rightarrow> addr list \<Rightarrow> store \<times> exn option" where
  "enrich_loop hunter i h [] = (h, None)"
| "enrich_loop hunter i h (lead # leads) =
     (case enrich_step hunter i h lead of
        (h', Some e) \<Rightarrow> (h', Some e)
      | (h', None) \<Rightarrow> enrich_loop hunter (Suc i) h' leads)"

text \<open>Lines 103 to 122: both the normal return and the handler return \<open>leads\<close>.\<close>

definition enrich_leads :: "lookup \<Rightarrow> store \<Rightarrow> addr list \<Rightarrow> store \<times> addr list" where
  "enrich_leads hunter h leads =
     (case enrich_loop hunter 0 h leads of
        (h', None) \<Rightarrow> (h', leads)
      | (h', Some e) \<Rightarrow> (h', leads))"

subsection \<open>Publisher: \<open>upload_to_sheets\<close>\<close>

text \<open>
  \<open>pd.DataFrame(leads)\<close> on a list of dicts has one row per dict and one column per key,
  in the order in which the keys first occur. \<open>df.empty\<close> holds when there is no row or
  no column. pandas converts the values of a column to a common type (a missing entry
  becomes NaN, a column of integers with a gap becomes a column of floats); the values it
  arrives at are a parameter: \<open>conv recs i c\<close> is the value of \<open>df.values.tolist()\<close>
  in row \<open>i\<close> and column \<open>c\<close> of the frame built from \<open>recs\<close>. A cell of the sheet is
  a column label or such a value.
\<close>

datatype 'c cell = Label ustr | Value 'c

type_synonym 'c convert = "dict list \<Rightarrow> nat \<Rightarrow> ustr \<Rightarrow> 'c"

definition add_keys :: "ustr list \<Rightarrow> ustr list \<Rightarrow> ustr list" where
  "add_keys cols ks = foldl (\<lambda>cs k. if k \<in> set cs then cs else cs @ [k]) cols ks"

definition df_columns :: "dict list \<Rightarrow> ustr list" where
  "df_columns recs = foldl (\<lambda>cols d. add_keys cols (map fst d)) [] recs"

definition df_values :: "'c convert \<Rightarrow> dict list \<Rightarrow> 'c list list" where
  "df_values conv recs = map (\<lambda>i. map (conv recs i) (df_columns recs)) [0..<length recs]"

definition df_empty :: "dict list \<Rightarrow> bool" where
  "df_empty recs = (recs = [] \<or> df_columns recs = [])"

definition placeholder :: dict where
  "placeholder =
     [(lit ''name'', PStr (lit ''No leads found'')),
      (lit ''email'', PStr (lit ''N/A'')),
      (lit ''why_fit'', PStr (lit ''Try a different audience''))]"

text \<open>Lines 135 to 138: the argument of \<open>sheet.update\<close>, header row first.\<close>

definition sheet_rows :: "'c convert \<Rightarrow> dict list \<Rightarrow> 'c cell list list" where
  "sheet_rows conv leads =
     (let df = (if df_empty leads then [placeholder] else leads)
      in map Label (df_columns df) # map (map Value) (df_values conv df))"

text \<open>
  The spreadsheet backend: \<open>backend\<close> is the outcome of lines 129 to 133 (credentials,
  authorisation, creation and sharing of the sheet), the identifier of the spreadsheet or
  the first exception; \<open>update\<close> is the outcome of \<open>sheet.update\<close> on the rows. The
  result of the body is the URL or the exception, together with what the body wrote: the
  rows it passed to \<open>sheet.update\<close>, or nothing when it did not come to the call.
\<close>

definition upload_body ::
  "'c convert \<Rightarrow> exn + ustr \<Rightarrow> ('c cell list list \<Rightarrow> exn option) \<Rightarrow> dict list \<Rightarrow>
     (exn + ustr) \<times> 'c cell list list option" where
  "upload_body conv backend update leads =
     (case backend of
        Inl e \<Rightarrow> (Inl e, None)
      | Inr sheet_id \<Rightarrow>
          (let rows = sheet_rows conv leads
           in case update rows of
                Some e \<Rightarrow> (Inl e, Some rows)
              | None \<Rightarrow>
                  (Inr (lit ''https://docs.google.com/spreadsheets/d/'' @ sheet_id),
                   Some rows)))"

text \<open>Lines 126 to 145: the handler logs and raises the exception again.\<close>

definition upload_to_sheets ::
  "'c convert \<Rightarrow> exn + ustr \<Rightarrow> ('c cell list list \<Rightarrow> exn option) \<Rightarrow> store \<Rightarrow> addr list \<Rightarrow>
     (exn + ustr) \<times> 'c cell list list option" where
  "upload_to_sheets conv backend update h leads =
     (case upload_body conv backend update (map h leads) of
        (Inl e, written) \<Rightarrow> (Inl e, written)
      | (Inr url, written) \<Rightarrow> (Inr url, written))"

subsection \<open>Sample inputs\<close>

text \<open>
  The tables of CPython on the code points below 256; above, the sample takes a code
  point as neither white space nor digit and leaves it as it is in lower case.
\<close>

definition latin1_tables :: builtins where
  "latin1_tables =
     \<lparr>ch_isspace = (\<lambda>c. 9 \<le> c \<and> c \<le> 13 \<or> 28 \<le> c \<and> c \<le> 32 \<or> c = 133 \<or> c = 160),
      ch_isdigit = (\<lambda>c. 48 \<le> c \<and> c \<le> 57 \<or> c = 178 \<or> c = 179 \<or> c = 185),
      ch_decimal = (\<lambda>c. if 48 \<le> c \<and> c \<le> 57 then Some (c - 48) else None),
      str_lower = map (\<lambda>c. if 65 \<le> c \<and> c \<le> 90 \<or> 192 \<le> c \<and> c \<le> 222 \<and> c \<noteq> 215
                             then c + 32 else c),
      int_max_str_digits = 4300\<rparr>"

text \<open>
  A store whose leads are as the Collector builds them, except the lead at reference 3,
  which has no post; a chat service whose second call raises and whose third call answers
  out of range; a lookup service whose second request raises.
\<close>

definition sample_lead :: dict where
  "sample_lead =
     [(lit ''username'', PStr (lit ''ann'')), (lit ''name'', PStr (lit ''Ann'')),
      (lit ''post'', PStr (lit ''I own a bakery'')), (lit ''source'', PStr (lit ''Facebook''))]"

definition sample_store :: store where
  "sample_store a = (if a = 3 then [(lit ''name'', PStr (lit ''Bob''))] else sample_lead)"

definition sample_chat :: chat where
  "sample_chat i p =
     (if i = 0 then Inr (lit '' 7 '')
      else if i = 1 then Inl (External ''timeout'')
      else if i = 2 then Inr (lit ''100'')
      else Inr (lit ''3''))"

definition sample_chat_yes :: chat where
  "sample_chat_yes i p = Inr (lit ''8'')"

definition sample_hunter :: lookup where
  "sample_hunter i name =
     (if i = 0
      then Inr (PDict [(lit ''data'', PDict [(lit ''email'', PStr (lit ''ann@example.com''))])])
      else if i = 1 then Inl (External ''timeout'')
      else Inr (PDict [(lit ''errors'', PStr (lit ''not found''))]))"

text \<open>
  A post that matches the audience "bakery owners" and one that does not; a post whose
  text has a capital E with acute accent, code point 201; a conversion
  that keeps the entry of the dict; a backend whose update fails on every argument, and
  one whose update succeeds.
\<close>

definition sample_post :: dict where
  "sample_post =
     [(lit ''text'', PStr (lit ''We are BAKERY owners in town'')), (lit ''username'', PNone)]"

definition other_post :: dict where
  "other_post =
     [(lit ''text'', PStr (lit ''Selling a bike'')), (lit ''username'', PStr (lit ''bob''))]"

definition cafe_post :: dict where
  "cafe_post =
     [(lit ''text'', PStr (lit ''CAF'' @ [201] @ lit '' owners'')), (lit ''username'', PNone)]"

definition sample_conv :: "pyval option convert" where
  "sample_conv recs i c = dict_get (recs ! i) c"

definition update_fails :: "pyval option cell list list \<Rightarrow> exn option" where
  "update_fails rows = Some (External ''quota'')"

definition update_ok :: "pyval option cell list list \<Rightarrow> exn option" where
  "update_ok rows = None"

section \<open>Properties\<close>

subsection \<open>Dicts\<close>

lemma lit_eq_iff: "lit a = lit b \<longleftrightarrow> a = b"
  by (simp add: lit_def inj_map_eq_map inj_of_char)

lemma dict_get_set:
  "dict_get (dict_set d k v) k' = (if k' = k then Some v else dict_get d k')"
  by (induction d) (auto simp: dict_get_def)

subsection \<open>Qualifier: what the loop maintains\<close>

lemma qualify_loop_scores:
  assumes "qualify_loop U client i h leads q = (h', Inr out)"
    and "length q < LEADS_PER_RUN"
    and "\<forall>a\<in>set q. \<exists>s. dict_get (h a) (lit ''score'') = Some (PInt s) \<and> Q s"
    and "\<forall>j txt. 5 \<le> lead_score U client j txt \<longrightarrow> Q (lead_score U client j txt)"
  shows "length out \<le> LEADS_PER_RUN \<and>
         (\<forall>a\<in>set out. \<exists>s. dict_get (h' a) (lit ''score'') = Some (PInt s) \<and> Q s)"
  using assms
proof (induction leads arbitrary: i h q)
  case Nil
  then show ?case by auto
next
  case (Cons lead leads)
  from Cons.prems(1) obtain ptxt where post: "dict_index (h lead) (lit ''post'') = Inr (PStr ptxt)"
    by (auto split: sum.splits pyval.splits)
  let ?s = "lead_score U client i ptxt"
  show ?case
  proof (cases "5 \<le> ?s")
    case True
    let ?h = "h(lead := dict_set (h lead) (lit ''score'') (PInt ?s))"
    have Qs: "Q ?s" using True Cons.prems(4) by blast
    have inv: "\<forall>a\<in>set (q @ [lead]). \<exists>s. dict_get (?h a) (lit ''score'') = Some (PInt s) \<and> Q s"
      using Cons.prems(3) Qs by (auto simp: dict_get_set lit_eq_iff)
    show ?thesis
    proof (cases "LEADS_PER_RUN \<le> length (q @ [lead])")
      case full: True
      with Cons.prems(1) post True have "h' = ?h" "out = q @ [lead]"
        by (auto simp: Let_def)
      with inv Cons.prems(2) show ?thesis by auto
    next
      case False
      with Cons.prems(1) post True
      have "qualify_loop U client (Suc i) ?h leads (q @ [lead]) = (h', Inr out)"
        by (auto simp: Let_def)
      from Cons.IH[OF this _ inv Cons.prems(4)] False show ?thesis by simp
    qed
  next
    case False
    with Cons.prems(1,2) post
    have "qualify_loop U client (Suc i) h leads q = (h', Inr out)"
      by (auto simp: Let_def)
    from Cons.IH[OF this Cons.prems(2,3,4)] show ?thesis .
  qed
qed

lemma qualify_loop_subseq:
  assumes "qualify_loop U client i h leads q = (h', Inr out)"
  shows "\<exists>r. out = q @ r \<and> subseq r leads"
  using assms
proof (induction leads arbitrary: i h q)
  case Nil
  then show ?case by auto
next
  case (Cons lead leads)
  from Cons.prems(1) obtain ptxt where post: "dict_index (h lead) (lit ''post'') = Inr (PStr ptxt)"
    by (auto split: sum.splits pyval.splits)
  let ?s = "lead_score U client i ptxt"
  let ?h = "if 5 \<le> ?s then h(lead := dict_set (h lead) (lit ''score'') (PInt ?s)) else h"
  let ?q = "if 5 \<le> ?s then q @ [lead] else q"
  show ?case
  proof (cases "LEADS_PER_RUN \<le> length ?q")
    case True
    with Cons.prems post have "out = ?q" by (auto simp: Let_def split: if_splits)
    then show ?thesis by (auto split: if_splits)
  next
    case False
    with Cons.prems post have "qualify_loop U client (Suc i) ?h leads ?q = (h', Inr out)"
      by (auto simp: Let_def split: if_splits)
    from Cons.IH[OF this] obtain r where r: "out = ?q @ r" "subseq r leads" by blast
    show ?thesis
    proof (cases "5 \<le> ?s")
      case True
      with r have "out = q @ (lead # r)" "subseq (lead # r) (lead # leads)" by auto
      then show ?thesis by blast
    next
      case False
      with r have "out = q @ r" "subseq r (lead # leads)" by auto
      then show ?thesis by blast
    qed
  qed
qed

subsection \<open>Qualifier: the loop keeps the first qualifying leads\<close>

lemma qualifying_cong:
  "\<forall>a\<in>set leads. dict_get (h' a) (lit ''post'') = dict_get (h a) (lit ''post'') \<Longrightarrow>
   qualifying U client h' i leads = qualifying U client h i leads"
  by (induction leads arbitrary: i) (simp_all add: post_score_def)

lemma subseq_qualifying: "subseq (qualifying U client h i leads) leads"
  by (induction leads arbitrary: i) auto

lemma qualify_loop_take:
  assumes "\<forall>a\<in>set leads. \<exists>t. dict_get (h a) (lit ''post'') = Some (PStr t)"
    and "length q < LEADS_PER_RUN"
  shows "snd (qualify_loop U client i h leads q) =
         Inr (q @ take (LEADS_PER_RUN - length q) (qualifying U client h i leads))"
  using assms
proof (induction leads arbitrary: i h q)
  case Nil
  then show ?case by simp
next
  case (Cons lead leads)
  from Cons.prems(1) obtain t where post: "dict_get (h lead) (lit ''post'') = Some (PStr t)"
    by auto
  then have idx: "dict_index (h lead) (lit ''post'') = Inr (PStr t)"
    by (simp add: dict_index_def)
  have ps: "post_score U client h i lead = lead_score U client i t"
    using post by (simp add: post_score_def)
  let ?s = "lead_score U client i t"
  show ?case
  proof (cases "5 \<le> ?s")
    case True
    let ?h = "h(lead := dict_set (h lead) (lit ''score'') (PInt ?s))"
    have same: "\<forall>a. dict_get (?h a) (lit ''post'') = dict_get (h a) (lit ''post'')"
      by (simp add: dict_get_set lit_eq_iff)
    show ?thesis
    proof (cases "LEADS_PER_RUN \<le> length (q @ [lead])")
      case full: True
      with Cons.prems(2) have "LEADS_PER_RUN - length q = Suc 0" by simp
      with full True idx ps show ?thesis by (simp add: Let_def)
    next
      case False
      then have lt: "length (q @ [lead]) < LEADS_PER_RUN" by simp
      have ok: "\<forall>a\<in>set leads. \<exists>t. dict_get (?h a) (lit ''post'') = Some (PStr t)"
        using Cons.prems(1) same by simp
      have "snd (qualify_loop U client (Suc i) ?h leads (q @ [lead])) =
            Inr ((q @ [lead]) @ take (LEADS_PER_RUN - length (q @ [lead]))
                   (qualifying U client ?h (Suc i) leads))"
        by (rule Cons.IH[OF ok lt])
      moreover have "qualifying U client ?h (Suc i) leads = qualifying U client h (Suc i) leads"
        using same by (intro qualifying_cong) blast
      moreover have "LEADS_PER_RUN - length q = Suc (LEADS_PER_RUN - length (q @ [lead]))"
        using lt by simp
      ultimately show ?thesis using False True idx ps by (simp add: Let_def)
    qed
  next
    case False
    have ok: "\<forall>a\<in>set leads. \<exists>t. dict_get (h a) (lit ''post'') = Some (PStr t)"
      using Cons.prems(1) by simp
    from Cons.IH[OF ok Cons.prems(2), of "Suc i"] False Cons.prems(2) idx ps
    show ?thesis by (simp add: Let_def)
  qed
qed

lemma take_qualifying_prefix:
  assumes "0 < n"
  shows "\<exists>k\<le>length leads.
           take n (qualifying U client h i leads) = qualifying U client h i (take k leads) \<and>
           (\<forall>j<k. length (qualifying U client h i (take j leads)) < n) \<and>
           (length (qualifying U client h i (take k leads)) = n \<or> k = length leads)"
  using assms
proof (induction leads arbitrary: i n)
  case Nil
  then show ?case by simp
next
  case (Cons lead leads)
  show ?case
  proof (cases "5 \<le> post_score U client h i lead")
    case True
    show ?thesis
    proof (cases "n = 1")
      case one: True
      have "take n (qualifying U client h i (lead # leads)) = qualifying U client h i (take 1 (lead # leads))"
        using True one by simp
      moreover have "\<forall>j<1::nat. length (qualifying U client h i (take j (lead # leads))) < n"
        using one by simp
      moreover have "length (qualifying U client h i (take 1 (lead # leads))) = n"
        using True one by simp
      ultimately show ?thesis
        by (intro exI[of _ 1]) simp
    next
      case False
      with Cons.prems have pos: "0 < n - 1" by simp
      from Cons.IH[OF pos, of "Suc i"] obtain k where k: "k \<le> length leads"
        "take (n - 1) (qualifying U client h (Suc i) leads) = qualifying U client h (Suc i) (take k leads)"
        "\<forall>j<k. length (qualifying U client h (Suc i) (take j leads)) < n - 1"
        "length (qualifying U client h (Suc i) (take k leads)) = n - 1 \<or> k = length leads"
        by blast
      have n: "n = Suc (n - 1)" using Cons.prems by simp
      have a: "take n (qualifying U client h i (lead # leads)) =
               qualifying U client h i (take (Suc k) (lead # leads))"
        using True k(2) by (subst n) simp
      have b: "\<forall>j<Suc k. length (qualifying U client h i (take j (lead # leads))) < n"
      proof (intro allI impI)
        fix j assume "j < Suc k"
        show "length (qualifying U client h i (take j (lead # leads))) < n"
        proof (cases j)
          case 0
          with Cons.prems show ?thesis by simp
        next
          case (Suc j')
          with \<open>j < Suc k\<close> k(3) have "length (qualifying U client h (Suc i) (take j' leads)) < n - 1"
            by simp
          with Suc True show ?thesis by simp
        qed
      qed
      have c: "length (qualifying U client h i (take (Suc k) (lead # leads))) = n \<or>
               Suc k = length (lead # leads)"
        using k(4) True n by auto
      from k(1) a b c show ?thesis
        by (intro exI[of _ "Suc k"]) simp
    qed
  next
    case False
    from Cons.IH[OF Cons.prems, of "Suc i"] obtain k where k: "k \<le> length leads"
      "take n (qualifying U client h (Suc i) leads) = qualifying U client h (Suc i) (take k leads)"
      "\<forall>j<k. length (qualifying U client h (Suc i) (take j leads)) < n"
      "length (qualifying U client h (Suc i) (take k leads)) = n \<or> k = length leads"
      by blast
    have a: "take n (qualifying U client h i (lead # leads)) =
             qualifying U client h i (take (Suc k) (lead # leads))"
      using False k(2) by simp
    have b: "\<forall>j<Suc k. length (qualifying U client h i (take j (lead # leads))) < n"
    proof (intro allI impI)
      fix j assume "j < Suc k"
      show "length (qualifying U client h i (take j (lead # leads))) < n"
      proof (cases j)
        case 0
        with Cons.prems show ?thesis by simp
      next
        case (Suc j')
        with \<open>j < Suc k\<close> k(3) have "length (qualifying U client h (Suc i) (take j' leads)) < n"
          by simp
        with Suc False show ?thesis by simp
      qed
    qed
    have c: "length (qualifying U client h i (take (Suc k) (lead # leads))) = n \<or>
             Suc k = length (lead # leads)"
      using k(4) False by auto
    from k(1) a b c show ?thesis
      by (intro exI[of _ "Suc k"]) simp
  qed
qed

subsection \<open>Qualifier: subset, threshold and cap\<close>

text \<open>
  Claim C1. For every input list, every store, every behaviour of the scoring service and
  every character table, the list the Qualifier returns holds only leads of its input, each of them has a score
  field that is an integer of at least 5, and the list has at most \<open>LEADS_PER_RUN\<close> = 10
  leads.
\<close>

theorem qualify_leads_subset_score_cap:
  assumes "qualify_leads U openai h leads = (h', out)"
  shows "set out \<subseteq> set leads \<and>
         (\<forall>lead\<in>set out. \<exists>score. dict_get (h' lead) (lit ''score'') = Some (PInt score) \<and> 5 \<le> score) \<and>
         length out \<le> LEADS_PER_RUN \<and> LEADS_PER_RUN = 10"
proof (cases openai)
  case (Inl e)
  with assms show ?thesis by (simp add: qualify_leads_def LEADS_PER_RUN_def)
next
  case (Inr client)
  obtain h1 r where loop: "qualify_loop U client 0 h leads [] = (h1, r)"
    by (cases "qualify_loop U client 0 h leads []")
  show ?thesis
  proof (cases r)
    case (Inl e)
    with assms Inr loop show ?thesis by (simp add: qualify_leads_def LEADS_PER_RUN_def)
  next
    case body: (Inr kept)
    with assms Inr loop have eq: "h' = h1" "out = kept"
      by (simp_all add: qualify_leads_def)
    from loop body eq have run: "qualify_loop U client 0 h leads [] = (h', Inr out)" by simp
    from qualify_loop_subseq[OF run] have "subseq out leads" by simp
    then have sub: "set out \<subseteq> set leads" by (auto dest: list_emb_set)
    have "length out \<le> LEADS_PER_RUN \<and>
          (\<forall>a\<in>set out. \<exists>s. dict_get (h' a) (lit ''score'') = Some (PInt s) \<and> 5 \<le> s)"
      by (rule qualify_loop_scores[OF run]) (simp_all add: LEADS_PER_RUN_def)
    with sub show ?thesis by (simp add: LEADS_PER_RUN_def)
  qed
qed

theorem qualify_leads_subset_score_cap_witness:
  "snd (qualify_leads latin1_tables (Inr sample_chat) sample_store [0, 1, 2]) = [0, 2] \<and>
   set (snd (qualify_leads latin1_tables (Inr sample_chat) sample_store [0, 1, 2])) \<subseteq> set [0, 1, 2] \<and>
   dict_get (fst (qualify_leads latin1_tables (Inr sample_chat) sample_store [0, 1, 2]) 0) (lit ''score'')
     = Some (PInt 7) \<and>
   dict_get (fst (qualify_leads latin1_tables (Inr sample_chat) sample_store [0, 1, 2]) 2) (lit ''score'')
     = Some (PInt 100) \<and>
   length (snd (qualify_leads latin1_tables (Inr sample_chat) sample_store [0, 1, 2])) \<le> LEADS_PER_RUN"
proof -
  have run: "qualify_leads latin1_tables (Inr sample_chat) sample_store [0, 1, 2] =
      (fst (qualify_leads latin1_tables (Inr sample_chat) sample_store [0, 1, 2]),
       snd (qualify_leads latin1_tables (Inr sample_chat) sample_store [0, 1, 2]))"
    by simp
  have out: "snd (qualify_leads latin1_tables (Inr sample_chat) sample_store [0, 1, 2]) = [0, 2]"
    by code_simp
  have s0: "dict_get (fst (qualify_leads latin1_tables (Inr sample_chat) sample_store [0, 1, 2]) 0) (lit ''score'')
      = Some (PInt 7)"
    by code_simp
  have s2: "dict_get (fst (qualify_leads latin1_tables (Inr sample_chat) sample_store [0, 1, 2]) 2) (lit ''score'')
      = Some (PInt 100)"
    by code_simp
  from qualify_leads_subset_score_cap[OF run] out s0 s2 show ?thesis by blast
qed

subsection \<open>Qualifier: the parsing of the reply\<close>

lemma int_of_str_nonneg: "int_of_str U s = Inr n \<Longrightarrow> 0 \<le> n"
  by (auto simp: int_of_str_def split: if_splits option.splits)

lemma reply_score_nonneg: "0 \<le> reply_score U content"
  by (auto simp: reply_score_def parse_score_def Let_def split: sum.splits if_splits
      dest: int_of_str_nonneg)

lemma reply_score_not_digit:
  assumes "c \<in> set (strip U content)" and "\<not> ch_isdigit U c"
  shows "reply_score U content = 0"
proof -
  from assms have "\<not> list_all (ch_isdigit U) (strip U content)"
    by (auto simp: list_all_iff)
  then show ?thesis
    by (simp add: reply_score_def parse_score_def isdigit_def)
qed

text \<open>
  Claim C2. With the character tables that every CPython has on the ASCII code points,
  the reply "7" gives score 7, and the replies "abc", the empty string and "-3" give
  score 0. With any tables, the score of a reply is never negative and never an exception,
  and a reply that, once stripped, has a character that is not a digit gives score 0:
  only a plain string of digits parses.
\<close>

theorem reply_score_examples:
  assumes "ascii_tables U"
  shows "reply_score U (lit ''7'') = 7 \<and> reply_score U (lit ''abc'') = 0 \<and>
         reply_score U [] = 0 \<and> reply_score U (lit ''-3'') = 0 \<and>
         0 \<le> reply_score U content \<and>
         (c \<in> set (strip U content) \<and> \<not> ch_isdigit U c \<longrightarrow> reply_score U content = 0)"
proof -
  from assms have sp: "\<And>c. c < 128 \<Longrightarrow> ch_isspace U c = (9 \<le> c \<and> c \<le> 13 \<or> 28 \<le> c \<and> c \<le> 32)"
    and dg: "\<And>c. c < 128 \<Longrightarrow> ch_isdigit U c = (48 \<le> c \<and> c \<le> 57)"
    and dc: "\<And>c. 48 \<le> c \<Longrightarrow> c \<le> 57 \<Longrightarrow> ch_decimal U c = Some (c - 48)"
    by (simp_all add: ascii_tables_def)
  have "reply_score U (lit ''7'') = 7"
    by (auto simp: reply_score_def parse_score_def strip_def isdigit_def int_of_str_def lit_def
        sp dg dc)
  moreover have "reply_score U (lit ''abc'') = 0"
    by (simp add: reply_score_def parse_score_def strip_def isdigit_def lit_def sp dg)
  moreover have "reply_score U [] = 0"
    by (simp add: reply_score_def parse_score_def strip_def isdigit_def)
  moreover have "reply_score U (lit ''-3'') = 0"
    by (simp add: reply_score_def parse_score_def strip_def isdigit_def lit_def sp dg)
  moreover have "0 \<le> reply_score U content"
    by (rule reply_score_nonneg)
  moreover have "c \<in> set (strip U content) \<and> \<not> ch_isdigit U c \<longrightarrow> reply_score U content = 0"
    by (auto intro: reply_score_not_digit)
  ultimately show ?thesis by blast
qed

lemma ascii_latin1_tables: "ascii_tables latin1_tables"
  by (auto simp: ascii_tables_def latin1_tables_def)

theorem reply_score_examples_witness:
  "ascii_tables latin1_tables \<and>
   reply_score latin1_tables (lit ''7'') = 7 \<and> reply_score latin1_tables (lit ''abc'') = 0 \<and>
   reply_score latin1_tables [] = 0 \<and> reply_score latin1_tables (lit ''-3'') = 0 \<and>
   45 \<in> set (strip latin1_tables (lit '' -3 '')) \<and> \<not> ch_isdigit latin1_tables 45 \<and>
   reply_score latin1_tables (lit '' -3 '') = 0 \<and>
   reply_score latin1_tables (lit ''7'' @ [160]) = 7 \<and>
   reply_score latin1_tables [178] = 0"
proof -
  have m: "45 \<in> set (strip latin1_tables (lit '' -3 ''))" by code_simp
  have d: "\<not> ch_isdigit latin1_tables 45" by (simp add: latin1_tables_def)
  have nbsp: "reply_score latin1_tables (lit ''7'' @ [160]) = 7" by code_simp
  have sup2: "reply_score latin1_tables [178] = 0" by code_simp
  from reply_score_examples[OF ascii_latin1_tables, of "lit '' -3 ''" 45] m d nbsp sup2
  show ?thesis using ascii_latin1_tables by blast
qed

subsection \<open>Qualifier: the order of the kept leads\<close>

text \<open>
  Claim C10. The list the Qualifier returns is a subsequence of its input: the kept leads
  are in the order of the input. When the client exists and every input lead has a text
  post, as the leads of the Collector have, the list holds the first \<open>LEADS_PER_RUN\<close>
  qualifying leads: it is the list of the qualifying leads of a prefix of the input, no
  shorter prefix holds \<open>LEADS_PER_RUN\<close> qualifying leads, and the prefix holds that many
  or is the whole input.
\<close>

theorem qualify_leads_keeps_order:
  assumes "qualify_leads U openai h leads = (h', out)"
  shows "subseq out leads \<and>
         (\<forall>client. openai = Inr client \<longrightarrow>
            (\<forall>lead\<in>set leads. \<exists>t. dict_get (h lead) (lit ''post'') = Some (PStr t)) \<longrightarrow>
            out = take LEADS_PER_RUN (qualifying U client h 0 leads) \<and>
            (\<exists>k\<le>length leads.
               out = qualifying U client h 0 (take k leads) \<and>
               (\<forall>j<k. length (qualifying U client h 0 (take j leads)) < LEADS_PER_RUN) \<and>
               (length out = LEADS_PER_RUN \<or> k = length leads)))"
proof (intro conjI allI impI)
  show "subseq out leads"
  proof (cases openai)
    case (Inl e)
    with assms show ?thesis by (simp add: qualify_leads_def)
  next
    case (Inr client)
    obtain h1 r where loop: "qualify_loop U client 0 h leads [] = (h1, r)"
      by (cases "qualify_loop U client 0 h leads []")
    show ?thesis
    proof (cases r)
      case (Inl e)
      with assms Inr loop show ?thesis by (simp add: qualify_leads_def)
    next
      case body: (Inr kept)
      with assms Inr loop have "qualify_loop U client 0 h leads [] = (h1, Inr out)"
        by (simp add: qualify_leads_def)
      from qualify_loop_subseq[OF this] show ?thesis by simp
    qed
  qed
next
  fix client
  assume cl: "openai = Inr client"
    and ok: "\<forall>lead\<in>set leads. \<exists>t. dict_get (h lead) (lit ''post'') = Some (PStr t)"
  have "snd (qualify_loop U client 0 h leads []) =
        Inr ([] @ take (LEADS_PER_RUN - length ([] :: addr list)) (qualifying U client h 0 leads))"
    by (rule qualify_loop_take[OF ok]) (simp add: LEADS_PER_RUN_def)
  with assms cl show out: "out = take LEADS_PER_RUN (qualifying U client h 0 leads)"
    by (auto simp: qualify_leads_def split: prod.splits sum.splits)
  have "0 < LEADS_PER_RUN" by (simp add: LEADS_PER_RUN_def)
  from take_qualifying_prefix[OF this, where leads = leads and U = U and client = client
      and h = h and i = 0] obtain k where k:
    "k \<le> length leads"
    "take LEADS_PER_RUN (qualifying U client h 0 leads) = qualifying U client h 0 (take k leads)"
    "\<forall>j<k. length (qualifying U client h 0 (take j leads)) < LEADS_PER_RUN"
    "length (qualifying U client h 0 (take k leads)) = LEADS_PER_RUN \<or> k = length leads"
    by blast
  from out k(2) have eq: "out = qualifying U client h 0 (take k leads)" by simp
  with k(4) have "length out = LEADS_PER_RUN \<or> k = length leads" by simp
  with k(1,3) eq
  show "\<exists>k\<le>length leads.
          out = qualifying U client h 0 (take k leads) \<and>
          (\<forall>j<k. length (qualifying U client h 0 (take j leads)) < LEADS_PER_RUN) \<and>
          (length out = LEADS_PER_RUN \<or> k = length leads)"
    by blast
qed

theorem qualify_leads_keeps_order_witness:
  "snd (qualify_leads latin1_tables (Inr sample_chat) sample_store [0, 1, 2]) = [0, 2] \<and>
   subseq (snd (qualify_leads latin1_tables (Inr sample_chat) sample_store [0, 1, 2])) [0, 1, 2] \<and>
   snd (qualify_leads latin1_tables (Inr sample_chat_yes) sample_store [0, 1, 2, 4, 5, 6, 7, 8, 9, 10, 11, 12])
     = [0, 1, 2, 4, 5, 6, 7, 8, 9, 10]"
proof -
  let ?A = "qualify_leads latin1_tables (Inr sample_chat) sample_store [0, 1, 2]"
  let ?B = "qualify_leads latin1_tables (Inr sample_chat_yes) sample_store [0, 1, 2, 4, 5, 6, 7, 8, 9, 10, 11, 12]"
  have okA: "\<forall>lead\<in>set [0, 1, 2]. \<exists>t. dict_get (sample_store lead) (lit ''post'') = Some (PStr t)"
    by (simp add: sample_store_def sample_lead_def dict_get_def)
  have okB: "\<forall>lead\<in>set [0, 1, 2, 4, 5, 6, 7, 8, 9, 10, 11, 12].
      \<exists>t. dict_get (sample_store lead) (lit ''post'') = Some (PStr t)"
    by (simp add: sample_store_def sample_lead_def dict_get_def)
  have qA: "take LEADS_PER_RUN (qualifying latin1_tables sample_chat sample_store 0 [0, 1, 2]) = [0, 2]"
    by code_simp
  have qB: "take LEADS_PER_RUN
      (qualifying latin1_tables sample_chat_yes sample_store 0 [0, 1, 2, 4, 5, 6, 7, 8, 9, 10, 11, 12])
      = [0, 1, 2, 4, 5, 6, 7, 8, 9, 10]"
    by code_simp
  have A: "?A = (fst ?A, snd ?A)" and B: "?B = (fst ?B, snd ?B)" by simp_all
  note a = qualify_leads_keeps_order[OF A]
  note b = qualify_leads_keeps_order[OF B]
  from a have "subseq (snd ?A) [0, 1, 2]" by (rule conjunct1)
  moreover from a[THEN conjunct2, rule_format, OF refl okA[rule_format], THEN conjunct1] qA
  have "snd ?A = [0, 2]" by (rule trans)
  moreover from b[THEN conjunct2, rule_format, OF refl okB[rule_format], THEN conjunct1] qB
  have "snd ?B = [0, 1, 2, 4, 5, 6, 7, 8, 9, 10]" by (rule trans)
  ultimately show ?thesis by (intro conjI)
qed

subsection \<open>Qualifier: the range of the score\<close>

text \<open>
  Claim C7, as amended. Every lead the Qualifier returns has a score field that is an
  integer of at least 5. The code sets no upper bound: the score is at most 10 when every
  reply of the scoring service gives a score of at most 10 by lines 78 to 83.
\<close>

theorem qualify_leads_score_bounds:
  assumes "qualify_leads U openai h leads = (h', out)"
  shows "\<forall>lead\<in>set out. \<exists>score.
           dict_get (h' lead) (lit ''score'') = Some (PInt score) \<and> 5 \<le> score \<and>
           ((\<forall>client i p content.
               openai = Inr client \<and> client i p = Inr content \<longrightarrow> reply_score U content \<le> 10)
            \<longrightarrow> score \<le> 10)"
proof (cases openai)
  case (Inl e)
  with assms show ?thesis by (simp add: qualify_leads_def)
next
  case (Inr client)
  obtain h1 r where loop: "qualify_loop U client 0 h leads [] = (h1, r)"
    by (cases "qualify_loop U client 0 h leads []")
  show ?thesis
  proof (cases r)
    case (Inl e)
    with assms Inr loop show ?thesis by (simp add: qualify_leads_def)
  next
    case body: (Inr kept)
    with assms Inr loop have run: "qualify_loop U client 0 h leads [] = (h', Inr out)"
      by (simp add: qualify_leads_def)
    let ?B = "\<forall>i p content. client i p = Inr content \<longrightarrow> reply_score U content \<le> 10"
    let ?Q = "\<lambda>s::int. 5 \<le> s \<and> (?B \<longrightarrow> s \<le> 10)"
    have step: "\<forall>j t. 5 \<le> lead_score U client j t \<longrightarrow> ?Q (lead_score U client j t)"
      by (auto simp: lead_score_def split: sum.splits)
    have "length out \<le> LEADS_PER_RUN \<and>
          (\<forall>a\<in>set out. \<exists>s. dict_get (h' a) (lit ''score'') = Some (PInt s) \<and> ?Q s)"
      by (rule qualify_loop_scores[OF run _ _ step]) (simp_all add: LEADS_PER_RUN_def)
    with Inr show ?thesis by auto
  qed
qed

theorem qualify_leads_score_bounds_witness:
  "0 \<in> set (snd (qualify_leads latin1_tables (Inr sample_chat_yes) sample_store [0])) \<and>
   (\<exists>score. dict_get (fst (qualify_leads latin1_tables (Inr sample_chat_yes) sample_store [0]) 0) (lit ''score'')
       = Some (PInt score) \<and> 5 \<le> score \<and> score \<le> 10)"
proof -
  let ?R = "qualify_leads latin1_tables (Inr sample_chat_yes) sample_store [0]"
  have R: "?R = (fst ?R, snd ?R)" by simp
  have mem: "0 \<in> set (snd ?R)" by code_simp
  have p8: "reply_score latin1_tables (lit ''8'') = 8" by code_simp
  have bound: "\<forall>client i p content.
      Inr sample_chat_yes = Inr client \<and> client i p = Inr content \<longrightarrow>
      reply_score latin1_tables content \<le> 10"
    using p8 by (auto simp: sample_chat_yes_def)
  from qualify_leads_score_bounds[OF R] mem bound show ?thesis by blast
qed

text \<open>
  Claim C7 as stated fails: the reply "100" is a digit string, so the lead is kept with
  score 100.
\<close>

theorem qualify_leads_score_range_counterexample:
  "2 \<in> set (snd (qualify_leads latin1_tables (Inr sample_chat) sample_store [0, 1, 2])) \<and>
   dict_get (fst (qualify_leads latin1_tables (Inr sample_chat) sample_store [0, 1, 2]) 2) (lit ''score'')
     = Some (PInt 100) \<and>
   \<not> (100 :: int) \<le> 10"
proof -
  have "snd (qualify_leads latin1_tables (Inr sample_chat) sample_store [0, 1, 2]) = [0, 2]"
    by code_simp
  moreover have "dict_get (fst (qualify_leads latin1_tables (Inr sample_chat) sample_store [0, 1, 2]) 2) (lit ''score'')
     = Some (PInt 100)"
    by code_simp
  ultimately show ?thesis by simp
qed

subsection \<open>Enricher: what the loop changes\<close>

lemma enrich_step_fields:
  assumes "enrich_step hunter i h lead = (h', r)"
    and "key \<noteq> (lit ''email'')" and "key \<noteq> (lit ''why_fit'')"
  shows "dict_get (h' a) key = dict_get (h a) key"
  using assms
  by (auto simp: enrich_step_def Let_def dict_get_set lit_eq_iff split: sum.splits pyval.splits if_splits)

lemma enrich_step_untouched:
  assumes "enrich_step hunter i h lead = (h', r)" and "a \<noteq> lead"
  shows "h' a = h a"
  using assms
  by (auto simp: enrich_step_def Let_def split: sum.splits pyval.splits if_splits)

lemma enrich_loop_fields:
  assumes "enrich_loop hunter i h leads = (h', r)"
    and "key \<noteq> (lit ''email'')" and "key \<noteq> (lit ''why_fit'')"
  shows "dict_get (h' a) key = dict_get (h a) key"
  using assms(1)
proof (induction leads arbitrary: i h)
  case Nil
  then show ?case by simp
next
  case (Cons lead leads)
  obtain h1 r1 where step: "enrich_step hunter i h lead = (h1, r1)"
    by (cases "enrich_step hunter i h lead")
  have first: "dict_get (h1 a) key = dict_get (h a) key"
    by (rule enrich_step_fields[OF step assms(2,3)])
  show ?case
  proof (cases r1)
    case None
    with Cons.prems step have "enrich_loop hunter (Suc i) h1 leads = (h', r)" by simp
    from Cons.IH[OF this] first show ?thesis by simp
  next
    case (Some e)
    with Cons.prems step have "h' = h1" by simp
    with first show ?thesis by simp
  qed
qed

lemma enrich_loop_untouched:
  assumes "enrich_loop hunter i h leads = (h', r)" and "a \<notin> set leads"
  shows "h' a = h a"
  using assms
proof (induction leads arbitrary: i h)
  case Nil
  then show ?case by simp
next
  case (Cons lead leads)
  obtain h1 r1 where step: "enrich_step hunter i h lead = (h1, r1)"
    by (cases "enrich_step hunter i h lead")
  from Cons.prems(2) have ne: "a \<noteq> lead" and notin: "a \<notin> set leads" by simp_all
  have first: "h1 a = h a" by (rule enrich_step_untouched[OF step ne])
  show ?case
  proof (cases r1)
    case None
    with Cons.prems(1) step have "enrich_loop hunter (Suc i) h1 leads = (h', r)" by simp
    from Cons.IH[OF this notin] first show ?thesis by simp
  next
    case (Some e)
    with Cons.prems(1) step have "h' = h1" by simp
    with first show ?thesis by simp
  qed
qed

lemma enrich_loop_append_fail:
  assumes "snd (enrich_loop hunter i h pre) \<noteq> None"
  shows "enrich_loop hunter i h (pre @ rest) = enrich_loop hunter i h pre"
  using assms
  by (induction pre arbitrary: i h) (auto split: prod.splits option.splits)

subsection \<open>Enricher: no lead is dropped\<close>

text \<open>
  Claim C3. For every input list, the empty list too, every store and every behaviour of
  the lookup service, the Enricher returns its input list, so the length of the result is
  the length of the input, whether the loop ends normally or with an exception.
\<close>

theorem enrich_leads_keeps_every_lead:
  "snd (enrich_leads hunter h leads) = leads \<and>
   length (snd (enrich_leads hunter h leads)) = length leads"
  by (simp add: enrich_leads_def split: prod.splits option.splits)

theorem enrich_leads_keeps_every_lead_witness:
  "snd (enrich_leads sample_hunter sample_store [0, 1, 2]) = [0, 1, 2] \<and>
   snd (enrich_leads sample_hunter sample_store [0]) = [0] \<and>
   length (snd (enrich_leads sample_hunter sample_store [])) = 0 \<and>
   snd (enrich_loop sample_hunter 0 sample_store [0, 1, 2]) = Some (External ''timeout'') \<and>
   snd (enrich_loop sample_hunter 0 sample_store [0]) = None"
proof -
  have "snd (enrich_loop sample_hunter 0 sample_store [0, 1, 2]) = Some (External ''timeout'')"
    by code_simp
  moreover have "snd (enrich_loop sample_hunter 0 sample_store [0]) = None"
    by code_simp
  ultimately show ?thesis
    using enrich_leads_keeps_every_lead[of sample_hunter sample_store "[0, 1, 2]"]
      enrich_leads_keeps_every_lead[of sample_hunter sample_store "[0]"]
      enrich_leads_keeps_every_lead[of sample_hunter sample_store "[]"]
    by simp
qed

subsection \<open>Enricher: the whole-stage exception\<close>

text \<open>
  Claim C5, as amended. When an exception leaves the loop of the Enricher, it is caught
  and the function returns its input list, with the assignments made before the exception
  kept: every lead agrees with its state at entry on every field other than email and
  why_fit, and when the exception occurs within a prefix of the list, every lead that is
  not in that prefix is unmodified.
\<close>

theorem enrich_leads_exception_keeps_other_fields:
  assumes "enrich_loop hunter 0 h leads = (h', Some e)"
  shows "enrich_leads hunter h leads = (h', leads) \<and>
         (\<forall>lead key. key \<noteq> (lit ''email'') \<and> key \<noteq> (lit ''why_fit'') \<longrightarrow>
            dict_get (h' lead) key = dict_get (h lead) key) \<and>
         (\<forall>pre rest lead.
            leads = pre @ rest \<and> snd (enrich_loop hunter 0 h pre) \<noteq> None \<and> lead \<notin> set pre \<longrightarrow>
            h' lead = h lead)"
proof (intro conjI allI impI)
  from assms show "enrich_leads hunter h leads = (h', leads)"
    by (simp add: enrich_leads_def)
next
  fix lead key
  assume "key \<noteq> (lit ''email'') \<and> key \<noteq> (lit ''why_fit'')"
  with enrich_loop_fields[OF assms] show "dict_get (h' lead) key = dict_get (h lead) key"
    by blast
next
  fix pre rest lead
  assume a: "leads = pre @ rest \<and> snd (enrich_loop hunter 0 h pre) \<noteq> None \<and> lead \<notin> set pre"
  then have "enrich_loop hunter 0 h (pre @ rest) = enrich_loop hunter 0 h pre"
    by (intro enrich_loop_append_fail) simp
  with assms a have "enrich_loop hunter 0 h pre = (h', Some e)" by simp
  from enrich_loop_untouched[OF this] a show "h' lead = h lead" by blast
qed

theorem enrich_leads_exception_keeps_other_fields_witness:
  "enrich_leads sample_hunter sample_store [0, 1, 2] =
     (fst (enrich_loop sample_hunter 0 sample_store [0, 1, 2]), [0, 1, 2]) \<and>
   dict_get (fst (enrich_loop sample_hunter 0 sample_store [0, 1, 2]) 0) (lit ''post'')
     = dict_get (sample_store 0) (lit ''post'') \<and>
   fst (enrich_loop sample_hunter 0 sample_store [0, 1, 2]) 2 = sample_store 2"
proof -
  let ?R = "enrich_loop sample_hunter 0 sample_store [0, 1, 2]"
  have e: "snd ?R = Some (External ''timeout'')" by code_simp
  have R: "?R = (fst ?R, Some (External ''timeout''))"
    using e by (metis prod.collapse)
  have pre: "snd (enrich_loop sample_hunter 0 sample_store [0, 1]) \<noteq> None" by code_simp
  note t = enrich_leads_exception_keeps_other_fields[OF R]
  from t have "enrich_leads sample_hunter sample_store [0, 1, 2] = (fst ?R, [0, 1, 2])"
    by (rule conjunct1)
  moreover from t[THEN conjunct2, THEN conjunct1, rule_format,
      where key = "lit ''post''" and lead = 0]
  have "dict_get (fst ?R 0) (lit ''post'') = dict_get (sample_store 0) (lit ''post'')"
    by (simp add: lit_eq_iff)
  moreover from t[THEN conjunct2, THEN conjunct2, rule_format, of "[0, 1]" "[2]" 2] pre
  have "fst ?R 2 = sample_store 2" by simp
  ultimately show ?thesis by (intro conjI)
qed

text \<open>
  Claim C5 as stated fails: the second request raises after the first lead has been
  enriched, and the returned first lead has an email field that it did not have at entry.
\<close>

theorem enrich_leads_unmodified_counterexample:
  "snd (enrich_loop sample_hunter 0 sample_store [0, 1, 2]) = Some (External ''timeout'') \<and>
   snd (enrich_leads sample_hunter sample_store [0, 1, 2]) = [0, 1, 2] \<and>
   dict_get (sample_store 0) (lit ''email'') = None \<and>
   dict_get (fst (enrich_leads sample_hunter sample_store [0, 1, 2]) 0) (lit ''email'')
     = Some (PStr (lit ''ann@example.com'')) \<and>
   fst (enrich_leads sample_hunter sample_store [0, 1, 2]) 0 \<noteq> sample_store 0"
proof -
  have a: "snd (enrich_loop sample_hunter 0 sample_store [0, 1, 2]) = Some (External ''timeout'')"
    by code_simp
  have b: "snd (enrich_leads sample_hunter sample_store [0, 1, 2]) = [0, 1, 2]"
    by code_simp
  have c: "dict_get (sample_store 0) (lit ''email'') = None" by code_simp
  have d: "dict_get (fst (enrich_leads sample_hunter sample_store [0, 1, 2]) 0) (lit ''email'')
     = Some (PStr (lit ''ann@example.com''))"
    by code_simp
  from c d have "fst (enrich_leads sample_hunter sample_store [0, 1, 2]) 0 \<noteq> sample_store 0"
    by auto
  with a b c d show ?thesis by (intro conjI)
qed

subsection \<open>Enricher: a lookup without result, a lookup that raises\<close>

text \<open>
  Claim C6, as amended. For a lead with a name and a text post, a lookup response that is
  a dict without a data entry, or whose data entry is a dict without an email entry, sets
  the email field to "N/A" and the why_fit field, and the loop goes on with the next lead.
  A lookup call that raises is not caught per lead: it ends the loop at once with the
  store as it is, so the failing lead and the leads after it get no email field.
\<close>

theorem enrich_loop_placeholder_or_stop:
  assumes "dict_get (h lead) (lit ''name'') = Some name"
    and "dict_get (h lead) (lit ''post'') = Some (PStr t)"
  shows "(\<forall>fields.
            hunter i name = Inr (PDict fields) \<and>
            (dict_get fields (lit ''data'') = None \<or>
             (\<exists>d. dict_get fields (lit ''data'') = Some (PDict d) \<and> dict_get d (lit ''email'') = None))
            \<longrightarrow>
            enrich_loop hunter i h (lead # leads) =
              enrich_loop hunter (Suc i)
                (h(lead := dict_set (dict_set (h lead) (lit ''email'') (PStr (lit ''N/A'')))
                             (lit ''why_fit'') (why_fit_of t)))
                leads) \<and>
         (\<forall>e. hunter i name = Inl e \<longrightarrow>
            enrich_loop hunter i h (lead # leads) = (h, Some e))"
proof (intro conjI allI impI)
  fix fields
  assume a: "hunter i name = Inr (PDict fields) \<and>
            (dict_get fields (lit ''data'') = None \<or>
             (\<exists>d. dict_get fields (lit ''data'') = Some (PDict d) \<and> dict_get d (lit ''email'') = None))"
  have em: "\<exists>data. py_get (PDict fields) (lit ''data'') (PDict []) = Inr data \<and>
                  py_get data (lit ''email'') (PStr (lit ''N/A'')) = Inr (PStr (lit ''N/A''))"
    using a by (auto simp: py_get_def dict_get_def)
  have "enrich_step hunter i h lead =
          (h(lead := dict_set (dict_set (h lead) (lit ''email'') (PStr (lit ''N/A'')))
                       (lit ''why_fit'') (why_fit_of t)), None)"
    using assms a em
    by (auto simp: enrich_step_def dict_index_def dict_get_set lit_eq_iff Let_def)
  then show "enrich_loop hunter i h (lead # leads) =
              enrich_loop hunter (Suc i)
                (h(lead := dict_set (dict_set (h lead) (lit ''email'') (PStr (lit ''N/A'')))
                             (lit ''why_fit'') (why_fit_of t)))
                leads"
    by simp
next
  fix e
  assume "hunter i name = Inl e"
  with assms show "enrich_loop hunter i h (lead # leads) = (h, Some e)"
    by (simp add: enrich_step_def dict_index_def)
qed

theorem enrich_loop_placeholder_or_stop_witness:
  "enrich_loop sample_hunter 2 sample_store [5, 6] =
     enrich_loop sample_hunter 3
       (sample_store(5 := dict_set (dict_set (sample_store 5) (lit ''email'') (PStr (lit ''N/A'')))
                            (lit ''why_fit'') (why_fit_of (lit ''I own a bakery''))))
       [6] \<and>
   enrich_loop sample_hunter 1 sample_store [5, 6] = (sample_store, Some (External ''timeout''))"
proof -
  have nm: "dict_get (sample_store 5) (lit ''name'') = Some (PStr (lit ''Ann''))" by code_simp
  have po: "dict_get (sample_store 5) (lit ''post'') = Some (PStr (lit ''I own a bakery''))" by code_simp
  have r2: "sample_hunter 2 (PStr (lit ''Ann'')) = Inr (PDict [(lit ''errors'', PStr (lit ''not found''))])"
    by (simp add: sample_hunter_def)
  have nd: "dict_get [(lit ''errors'', PStr (lit ''not found''))] (lit ''data'') = None"
    by (simp add: dict_get_def lit_eq_iff)
  have r1: "sample_hunter 1 (PStr (lit ''Ann'')) = Inl (External ''timeout'')"
    by (simp add: sample_hunter_def)
  from enrich_loop_placeholder_or_stop[where h = sample_store and lead = 5 and hunter = sample_hunter
      and i = 2 and leads = "[6]", OF nm po] r2 nd
  have "enrich_loop sample_hunter 2 sample_store [5, 6] =
     enrich_loop sample_hunter 3
       (sample_store(5 := dict_set (dict_set (sample_store 5) (lit ''email'') (PStr (lit ''N/A'')))
                            (lit ''why_fit'') (why_fit_of (lit ''I own a bakery''))))
       [6]"
    by (simp add: eval_nat_numeral)
  moreover from enrich_loop_placeholder_or_stop[where h = sample_store and lead = 5
      and hunter = sample_hunter and i = 1 and leads = "[6]", OF nm po] r1
  have "enrich_loop sample_hunter 1 sample_store [5, 6] = (sample_store, Some (External ''timeout''))"
    by blast
  ultimately show ?thesis by (intro conjI)
qed

text \<open>
  Claim C6 as stated fails: the second request raises, the second lead gets no email
  field, and the third lead is never looked up.
\<close>

theorem enrich_leads_lookup_failure_counterexample:
  "sample_hunter 1 (PStr (lit ''Ann'')) = Inl (External ''timeout'') \<and>
   dict_get (fst (enrich_leads sample_hunter sample_store [0, 1, 2]) 1) (lit ''email'') = None \<and>
   dict_get (fst (enrich_leads sample_hunter sample_store [0, 1, 2]) 2) (lit ''email'') = None \<and>
   dict_get (fst (enrich_leads sample_hunter sample_store [0, 1, 2]) 2) (lit ''why_fit'') = None"
proof -
  have "sample_hunter 1 (PStr (lit ''Ann'')) = Inl (External ''timeout'')"
    by (simp add: sample_hunter_def)
  moreover have "dict_get (fst (enrich_leads sample_hunter sample_store [0, 1, 2]) 1) (lit ''email'') = None"
    by code_simp
  moreover have "dict_get (fst (enrich_leads sample_hunter sample_store [0, 1, 2]) 2) (lit ''email'') = None"
    by code_simp
  moreover have "dict_get (fst (enrich_leads sample_hunter sample_store [0, 1, 2]) 2) (lit ''why_fit'') = None"
    by code_simp
  ultimately show ?thesis by (intro conjI)
qed

subsection \<open>Collector: cap, match and early stop\<close>

lemma post_step_result:
  assumes "post_step U aud post leads = Inr leads'"
  shows "leads' = leads \<or>
         (\<exists>l t. leads' = leads @ [l] \<and> dict_get l (lit ''post'') = Some (PStr t) \<and>
                sublist (str_lower U aud) (str_lower U t))"
  using assms
  by (auto simp: post_step_def dict_get_def lit_eq_iff split: sum.splits pyval.splits if_splits)

lemma scrape_loop_inv:
  assumes "scrape_loop U aud g acc = Inr out"
    and "length acc < LEADS_PER_RUN * 2"
    and "\<forall>l\<in>set acc. \<exists>t. dict_get l (lit ''post'') = Some (PStr t) \<and> sublist (str_lower U aud) (str_lower U t)"
  shows "length out \<le> LEADS_PER_RUN * 2 \<and>
         (\<forall>l\<in>set out. \<exists>t. dict_get l (lit ''post'') = Some (PStr t) \<and> sublist (str_lower U aud) (str_lower U t))"
  using assms
proof (induction g arbitrary: acc)
  case Stop
  then show ?case by simp
next
  case (Fail e)
  then show ?case by simp
next
  case (Yield post g)
  from Yield.prems(1) obtain leads' where step: "post_step U aud post acc = Inr leads'"
    by (auto split: sum.splits)
  from post_step_result[OF step] Yield.prems(2,3)
  have len: "length leads' \<le> LEADS_PER_RUN * 2"
    and inv: "\<forall>l\<in>set leads'. \<exists>t. dict_get l (lit ''post'') = Some (PStr t) \<and> sublist (str_lower U aud) (str_lower U t)"
    by auto
  show ?case
  proof (cases "LEADS_PER_RUN * 2 \<le> length leads'")
    case True
    with Yield.prems(1) step have "out = leads'" by simp
    with len inv show ?thesis by simp
  next
    case False
    with Yield.prems(1) step have "scrape_loop U aud g leads' = Inr out" by simp
    from Yield.IH[OF this _ inv] False show ?thesis by simp
  qed
qed

lemma scrape_loop_stop_early:
  assumes "scrape_loop U aud (gen_of ps Stop) acc = Inr out"
    and "length acc < LEADS_PER_RUN * 2"
    and "length out = LEADS_PER_RUN * 2"
  shows "scrape_loop U aud (gen_of ps g) acc = Inr out"
  using assms
proof (induction ps arbitrary: acc)
  case Nil
  then show ?case by (simp add: gen_of_def)
next
  case (Cons post ps)
  from Cons.prems(1) obtain leads' where step: "post_step U aud post acc = Inr leads'"
    by (auto simp: gen_of_def split: sum.splits)
  show ?case
  proof (cases "LEADS_PER_RUN * 2 \<le> length leads'")
    case True
    with Cons.prems(1) step show ?thesis by (simp add: gen_of_def)
  next
    case False
    with Cons.prems(1) step have "scrape_loop U aud (gen_of ps Stop) leads' = Inr out"
      by (simp add: gen_of_def)
    from Cons.IH[OF this _ Cons.prems(3)] False step show ?thesis
      by (simp add: gen_of_def)
  qed
qed

text \<open>
  Claim C8. For every audience string, every behaviour of the post feed and every
  \<open>str.lower\<close>, the Collector returns at most 2 \<times> \<open>LEADS_PER_RUN\<close> = 20 leads; the
  post text of every returned lead contains the audience string once \<open>str.lower\<close> is
  applied to both; and once the posts read so
  far have given 20 leads, nothing that follows is read: the result is the same whether
  the feed stops, yields more posts or raises.
\<close>

theorem scrape_public_fb_leads_cap_match_stop:
  "length (scrape_public_fb_leads U aud posts) \<le> 2 * LEADS_PER_RUN \<and>
   (\<forall>lead\<in>set (scrape_public_fb_leads U aud posts).
      \<exists>t. dict_get lead (lit ''post'') = Some (PStr t) \<and> sublist (str_lower U aud) (str_lower U t)) \<and>
   (\<forall>ps g. posts = gen_of ps g \<and>
           length (scrape_public_fb_leads U aud (gen_of ps Stop)) = 2 * LEADS_PER_RUN \<longrightarrow>
      scrape_public_fb_leads U aud posts = scrape_public_fb_leads U aud (gen_of ps Stop))"
proof (intro conjI allI impI)
  show "length (scrape_public_fb_leads U aud posts) \<le> 2 * LEADS_PER_RUN"
  proof (cases "scrape_loop U aud posts []")
    case (Inl e)
    then show ?thesis by (simp add: scrape_public_fb_leads_def)
  next
    case (Inr out)
    from scrape_loop_inv[OF this] Inr show ?thesis
      by (simp add: scrape_public_fb_leads_def LEADS_PER_RUN_def)
  qed
next
  show "\<forall>lead\<in>set (scrape_public_fb_leads U aud posts).
      \<exists>t. dict_get lead (lit ''post'') = Some (PStr t) \<and> sublist (str_lower U aud) (str_lower U t)"
  proof (cases "scrape_loop U aud posts []")
    case (Inl e)
    then show ?thesis by (simp add: scrape_public_fb_leads_def)
  next
    case (Inr out)
    from scrape_loop_inv[OF this] Inr show ?thesis
      by (simp add: scrape_public_fb_leads_def LEADS_PER_RUN_def)
  qed
next
  fix ps g
  assume a: "posts = gen_of ps g \<and>
           length (scrape_public_fb_leads U aud (gen_of ps Stop)) = 2 * LEADS_PER_RUN"
  then obtain out where out: "scrape_loop U aud (gen_of ps Stop) [] = Inr out"
    and len: "length out = LEADS_PER_RUN * 2"
    by (cases "scrape_loop U aud (gen_of ps Stop) []")
       (auto simp: scrape_public_fb_leads_def LEADS_PER_RUN_def)
  have "scrape_loop U aud (gen_of ps g) [] = Inr out"
    by (rule scrape_loop_stop_early[OF out _ len]) (simp add: LEADS_PER_RUN_def)
  with a out show "scrape_public_fb_leads U aud posts = scrape_public_fb_leads U aud (gen_of ps Stop)"
    by (simp add: scrape_public_fb_leads_def)
qed

theorem scrape_public_fb_leads_cap_match_stop_witness:
  "length (scrape_public_fb_leads latin1_tables (lit ''bakery owners'')
     (gen_of (replicate 20 sample_post) (Fail (External ''network'')))) = 20 \<and>
   scrape_public_fb_leads latin1_tables (lit ''bakery owners'') (gen_of [other_post, sample_post] Stop) =
     [[(lit ''username'', PStr (lit ''unknown'')), (lit ''name'', PStr (lit ''Unknown User'')),
       (lit ''post'', PStr (lit ''We are BAKERY owners in town'')), (lit ''source'', PStr (lit ''Facebook''))]] \<and>
   length (scrape_public_fb_leads latin1_tables (lit ''bakery owners'')
             (gen_of [other_post, sample_post] Stop)) \<le> 2 * LEADS_PER_RUN \<and>
   length (scrape_public_fb_leads latin1_tables (lit ''caf'' @ [233]) (gen_of [cafe_post] Stop)) = 1"
proof -
  let ?ps = "replicate 20 sample_post"
  have full: "length (scrape_public_fb_leads latin1_tables (lit ''bakery owners'') (gen_of ?ps Stop)) = 2 * LEADS_PER_RUN"
    by code_simp
  have n: "2 * LEADS_PER_RUN = 20" by (simp add: LEADS_PER_RUN_def)
  note t = scrape_public_fb_leads_cap_match_stop[of latin1_tables "lit ''bakery owners''"
      "gen_of ?ps (Fail (External ''network''))"]
  from t[THEN conjunct2, THEN conjunct2, rule_format, of ?ps "Fail (External ''network'')"] full
  have "scrape_public_fb_leads latin1_tables (lit ''bakery owners'') (gen_of ?ps (Fail (External ''network''))) =
        scrape_public_fb_leads latin1_tables (lit ''bakery owners'') (gen_of ?ps Stop)"
    by simp
  with full n have a: "length (scrape_public_fb_leads latin1_tables (lit ''bakery owners'')
     (gen_of ?ps (Fail (External ''network'')))) = 20"
    by simp
  have b: "scrape_public_fb_leads latin1_tables (lit ''bakery owners'') (gen_of [other_post, sample_post] Stop) =
     [[(lit ''username'', PStr (lit ''unknown'')), (lit ''name'', PStr (lit ''Unknown User'')),
       (lit ''post'', PStr (lit ''We are BAKERY owners in town'')), (lit ''source'', PStr (lit ''Facebook''))]]"
    by code_simp
  from scrape_public_fb_leads_cap_match_stop[of latin1_tables "lit ''bakery owners''"
      "gen_of [other_post, sample_post] Stop"]
  have c: "length (scrape_public_fb_leads latin1_tables (lit ''bakery owners'') (gen_of [other_post, sample_post] Stop)) \<le>
     2 * LEADS_PER_RUN"
    by (rule conjunct1)
  have d: "length (scrape_public_fb_leads latin1_tables (lit ''caf'' @ [233])
      (gen_of [cafe_post] Stop)) = 1"
    by code_simp
  from a b c d show ?thesis by (intro conjI)
qed

subsection \<open>Publisher: the rows written\<close>







subsection \<open>Publisher: exceptions are raised again\<close>

text \<open>
  Claim C9. Every exception of the body of the Publisher, from the set-up of the sheet or
  from the update, is the result of the Publisher: it reaches the caller. The Publisher
  returns a URL only when nothing raised. The earlier stages return a value instead: the
  Collector and the Qualifier the empty list, the Enricher its input list.
\<close>

theorem upload_to_sheets_raises:
  "(\<forall>e. fst (upload_body conv backend update (map h leads)) = Inl e \<longrightarrow>
        fst (upload_to_sheets conv backend update h leads) = Inl e) \<and>
   (\<forall>e. backend = Inl e \<longrightarrow> fst (upload_to_sheets conv backend update h leads) = Inl e) \<and>
   (\<forall>e sheet_id. backend = Inr sheet_id \<and> update (sheet_rows conv (map h leads)) = Some e \<longrightarrow>
        fst (upload_to_sheets conv backend update h leads) = Inl e) \<and>
   (\<forall>url. fst (upload_to_sheets conv backend update h leads) = Inr url \<longrightarrow>
        (\<exists>sheet_id. backend = Inr sheet_id \<and> update (sheet_rows conv (map h leads)) = None \<and>
           url = lit ''https://docs.google.com/spreadsheets/d/'' @ sheet_id)) \<and>
   scrape_public_fb_leads U aud (Fail e0) = [] \<and>
   qualify_leads U (Inl e0) h leads = (h, []) \<and>
   (\<forall>hunter name. dict_get (h lead) (lit ''name'') = Some name \<and> hunter 0 name = Inl e0 \<longrightarrow>
        enrich_leads hunter h (lead # leads) = (h, lead # leads))"
proof (intro conjI allI impI)
  fix e assume "fst (upload_body conv backend update (map h leads)) = Inl e"
  then show "fst (upload_to_sheets conv backend update h leads) = Inl e"
    by (auto simp: upload_to_sheets_def split: prod.splits sum.splits)
next
  fix e assume "backend = Inl e"
  then show "fst (upload_to_sheets conv backend update h leads) = Inl e"
    by (simp add: upload_to_sheets_def upload_body_def)
next
  fix e sheet_id
  assume "backend = Inr sheet_id \<and> update (sheet_rows conv (map h leads)) = Some e"
  then show "fst (upload_to_sheets conv backend update h leads) = Inl e"
    by (simp add: upload_to_sheets_def upload_body_def)
next
  fix url assume "fst (upload_to_sheets conv backend update h leads) = Inr url"
  then show "\<exists>sheet_id. backend = Inr sheet_id \<and> update (sheet_rows conv (map h leads)) = None \<and>
           url = lit ''https://docs.google.com/spreadsheets/d/'' @ sheet_id"
    by (auto simp: upload_to_sheets_def upload_body_def Let_def split: sum.splits option.splits)
next
  show "scrape_public_fb_leads U aud (Fail e0) = []"
    by (simp add: scrape_public_fb_leads_def)
next
  show "qualify_leads U (Inl e0) h leads = (h, [])"
    by (simp add: qualify_leads_def)
next
  fix hunter :: lookup and name
  assume "dict_get (h lead) (lit ''name'') = Some name \<and> hunter 0 name = Inl e0"
  then show "enrich_leads hunter h (lead # leads) = (h, lead # leads)"
    by (simp add: enrich_leads_def enrich_step_def dict_index_def)
qed

theorem upload_to_sheets_raises_witness:
  "fst (upload_to_sheets sample_conv (Inl (External ''credentials'')) update_ok sample_store [0, 1])
     = Inl (External ''credentials'') \<and>
   fst (upload_to_sheets sample_conv (Inr (lit ''abc'')) update_fails sample_store [0, 1])
     = Inl (External ''quota'') \<and>
   fst (upload_to_sheets sample_conv (Inr (lit ''abc'')) update_ok sample_store [0, 1])
     = Inr (lit ''https://docs.google.com/spreadsheets/d/abc'')"
proof -
  have a: "fst (upload_to_sheets sample_conv (Inl (External ''credentials'')) update_ok
      sample_store [0, 1]) = Inl (External ''credentials'')"
    using upload_to_sheets_raises[of sample_conv "Inl (External ''credentials'')" update_ok
        sample_store "[0, 1]"]
    by blast
  have f: "update_fails (sheet_rows sample_conv (map sample_store [0, 1])) = Some (External ''quota'')"
    by (simp add: update_fails_def)
  have b: "fst (upload_to_sheets sample_conv (Inr (lit ''abc'')) update_fails sample_store [0, 1])
      = Inl (External ''quota'')"
    using upload_to_sheets_raises[of sample_conv "Inr (lit ''abc'')" update_fails
        sample_store "[0, 1]"] f
    by blast
  have c: "fst (upload_to_sheets sample_conv (Inr (lit ''abc'')) update_ok sample_store [0, 1])
      = Inr (lit ''https://docs.google.com/spreadsheets/d/abc'')"
    by (simp add: upload_to_sheets_def upload_body_def update_ok_def lit_def)
  from a b c show ?thesis by (intro conjI)
qed

end
